theory Spec2Isabelle
  imports Complex_Main
begin

section \<open>Data model\<close>

text \<open>
  The planner of \<^verbatim>\<open>app/plan_route.py\<close> works on coordinates (pairs of Python floats,
  taken here as reals: no statement below depends on rounding), stop identifiers and line
  identifiers (strings). Every \<^verbatim>\<open>raise\<close> that the module or the library calls it makes
  can reach is a value of \<open>error\<close>, and a function that can raise returns
  \<open>error + 'a\<close> with \<open>Inl\<close> for the exception.
\<close>

type_synonym coord = "real \<times> real"
type_synonym stop = string
type_synonym line = string

datatype error =
    KeyError
  | IndexError
  | TypeError
  | ValueError
  | RuntimeError
  | NodeNotFound
  | NetworkXNoPath

text \<open>
  The values that \<open>parse_route\<close> yields are Python dictionaries with string keys, holding
  strings, floats, lists and further dictionaries. A dictionary keeps its keys in insertion
  order, so it is an association list.
\<close>

datatype pyval =
    Str string
  | Float real
  | PyList "pyval list"
  | Dict "(string \<times> pyval) list"

fun dict_get :: "pyval \<Rightarrow> string \<Rightarrow> pyval option" where
  "dict_get (Dict kvs) k = map_of kvs k"
| "dict_get _ k = None"

fun dict_keys :: "pyval \<Rightarrow> string list" where
  "dict_keys (Dict kvs) = map fst kvs"
| "dict_keys _ = []"

subsection \<open>The transit graph\<close>

text \<open>
  \<open>GRAPH\<close> is a \<^verbatim>\<open>networkx.MultiGraph\<close> built by \<^verbatim>\<open>data_loader\<close>, which is not part of
  the sources. Modelled from the spec: an undirected multigraph over stop identifiers whose
  edges each carry one line identifier; several edges may join the same two stops. The
  graph is the list of its explicitly added nodes and the list of its edges in insertion
  order; as in networkx, the end points of an edge are nodes of the graph.
\<close>

record multigraph =
  g_nodes :: "stop list"
  g_edges :: "(stop \<times> stop \<times> line) list"

definition node_list :: "multigraph \<Rightarrow> stop list" where
  "node_list G = remdups (g_nodes G @ concat (map (\<lambda>(a, b, l). [a, b]) (g_edges G)))"

definition has_node :: "multigraph \<Rightarrow> stop \<Rightarrow> bool" where
  "has_node G u = (u \<in> set (node_list G))"

text \<open>\<open>neighbors G u\<close>: the keys of the adjacency dictionary \<^verbatim>\<open>G[u]\<close>.\<close>

definition neighbors :: "multigraph \<Rightarrow> stop \<Rightarrow> stop list" where
  "neighbors G u =
     remdups (concat (map (\<lambda>(a, b, l). (if a = u then [b] else []) @ (if b = u then [a] else []))
       (g_edges G)))"

text \<open>
  \<open>edge_lines G u v\<close>: the \<^verbatim>\<open>'line'\<close> attribute of every edge of \<^verbatim>\<open>G[u][v].values()\<close>, in
  insertion order.
\<close>

definition edge_lines :: "multigraph \<Rightarrow> stop \<Rightarrow> stop \<Rightarrow> line list" where
  "edge_lines G u v =
     map (\<lambda>(a, b, l). l) (filter (\<lambda>(a, b, l). (a = u \<and> b = v) \<or> (a = v \<and> b = u)) (g_edges G))"

text \<open>
  \<^verbatim>\<open>G[u][v]\<close> followed by the loop over \<^verbatim>\<open>edges.values()\<close>: a \<^verbatim>\<open>KeyError\<close> when \<open>u\<close> is
  not a node or \<open>v\<close> is not adjacent to \<open>u\<close>.
\<close>

definition graph_lines :: "multigraph \<Rightarrow> stop \<Rightarrow> stop \<Rightarrow> error + line list" where
  "graph_lines G u v =
     (if v \<in> set (neighbors G u) then Inr (edge_lines G u v) else Inl KeyError)"

subsection \<open>Walks and connectedness\<close>

fun is_walk :: "multigraph \<Rightarrow> stop list \<Rightarrow> bool" where
  "is_walk G [] = False"
| "is_walk G [u] = has_node G u"
| "is_walk G (u # v # rest) = (v \<in> set (neighbors G u) \<and> is_walk G (v # rest))"

text \<open>Two stops are connected when a walk of the graph leads from one to the other.\<close>

definition connected :: "multigraph \<Rightarrow> stop \<Rightarrow> stop \<Rightarrow> bool" where
  "connected G s t = (\<exists>p. is_walk G p \<and> hd p = s \<and> last p = t)"

subsection \<open>The library's shortest path\<close>

text \<open>
  \<^verbatim>\<open>nx.shortest_path(graph, source, target)\<close> without weights is a breadth-first search.
  It raises \<^verbatim>\<open>NodeNotFound\<close> when an end point is not a node of the graph and
  \<^verbatim>\<open>NetworkXNoPath\<close> when the target cannot be reached; otherwise it returns the nodes of
  a shortest path, source and target included. The search below keeps a queue of the nodes
  reached so far, each with the path that led to it (reversed), and the list of the nodes
  already seen; neighbours are visited in adjacency order. It meets this contract
  (\<open>shortest_path_walk\<close>, \<open>shortest_path_connected\<close>, \<open>shortest_path_shortest\<close>
  below). Where two stops have several shortest paths, the library (which searches from both
  ends) may return another one of them than this search from the source. The general
  theorems below rest on the contract only, and in the graphs evaluated below the shortest
  path between two connected stops is unique.
\<close>

definition fresh :: "multigraph \<Rightarrow> stop list \<Rightarrow> stop \<Rightarrow> stop list" where
  "fresh G seen u = filter (\<lambda>v. v \<notin> set seen) (neighbors G u)"

function bfs :: "multigraph \<Rightarrow> stop \<Rightarrow> (stop \<times> stop list) list \<Rightarrow> stop list \<Rightarrow> stop list option" where
  "bfs G t [] seen = None"
| "bfs G t ((u, p) # queue) seen =
     (if u = t then Some (rev (u # p))
      else bfs G t (queue @ map (\<lambda>v. (v, u # p)) (fresh G seen u)) (seen @ fresh G seen u))"
  by pat_completeness auto

definition shortest_path :: "multigraph \<Rightarrow> stop \<Rightarrow> stop \<Rightarrow> error + stop list" where
  "shortest_path G source target =
     (if \<not> has_node G source \<or> \<not> has_node G target then Inl NodeNotFound
      else case bfs G target [(source, [])] [source] of
             None \<Rightarrow> Inl NetworkXNoPath
           | Some path \<Rightarrow> Inr path)"

section \<open>The module's globals\<close>

text \<open>
  \<^verbatim>\<open>data_loader\<close> (not part of the sources) provides the globals the planner reads:
  \<open>ALL_STOPS_TREE\<close>, a \<^verbatim>\<open>scipy.spatial.cKDTree\<close> over the stop coordinates, given here by
  its data array; \<open>COORD_STOPS\<close> and \<open>STOP_COORDS\<close>, the dictionaries between
  coordinates and stop identifiers; and \<open>GRAPH\<close>. \<^verbatim>\<open>geopy.distance.distance(a, b).meters\<close>
  is the geodesic distance, a parameter of the model as well. No function of the module
  assigns to any of them, so they are passed as one read-only environment.
\<close>

record env =
  ALL_STOPS_TREE :: "coord list"
  COORD_STOPS :: "coord \<Rightarrow> stop option"
  GRAPH :: multigraph
  STOP_COORDS :: "stop \<Rightarrow> coord option"
  distance_meters :: "coord \<Rightarrow> coord \<Rightarrow> real"

subsection \<open>The spatial index\<close>

text \<open>
  \<^verbatim>\<open>tree.query(x, k=k)\<close> for one query point and \<open>k > 1\<close> returns \<open>k\<close> indices into
  \<^verbatim>\<open>tree.data\<close>, nearest first by Euclidean distance; where the tree holds fewer than \<open>k\<close>
  points the missing neighbours are reported with the index \<open>n\<close>, the number of points.
  For \<open>k = 1\<close> the result is a single index, not an array, and \<open>k = 0\<close> is refused.
  The library does not fix the order of stops at the same distance; the model takes them
  in the order of the data array. In every answer of the index that is stated below the
  stops lie at pairwise different distances from the query point.
\<close>

definition sq_dist :: "coord \<Rightarrow> coord \<Rightarrow> real" where
  "sq_dist a b = (fst a - fst b)\<^sup>2 + (snd a - snd b)\<^sup>2"

definition tree_query :: "coord list \<Rightarrow> coord \<Rightarrow> nat \<Rightarrow> nat list" where
  "tree_query tree_data x k =
     (let n = length tree_data
      in take k (sort_key (\<lambda>i. sq_dist (tree_data ! i) x) [0..<n]) @ replicate (k - n) n)"

text \<open>\<^verbatim>\<open>tree.data[idx]\<close>: an \<^verbatim>\<open>IndexError\<close> out of range.\<close>

definition tree_data_at :: "coord list \<Rightarrow> nat \<Rightarrow> error + coord" where
  "tree_data_at tree_data idx =
     (if idx < length tree_data then Inr (tree_data ! idx) else Inl IndexError)"

section \<open>The functions of the module\<close>

text \<open>A loop or a comprehension whose body can raise stops at the first exception.\<close>

fun collect :: "('a \<Rightarrow> error + 'b) \<Rightarrow> 'a list \<Rightarrow> error + 'b list" where
  "collect f [] = Inr []"
| "collect f (x # xs) =
     (case f x of
        Inl e \<Rightarrow> Inl e
      | Inr y \<Rightarrow> (case collect f xs of Inl e \<Rightarrow> Inl e | Inr ys \<Rightarrow> Inr (y # ys)))"

text \<open>
  \<open>k_nearest_stop_coords\<close>: the query, then \<^verbatim>\<open>for idx in indexes\<close> appending
  \<^verbatim>\<open>tree.data[idx]\<close>. Iterating the single index that the query returns for \<open>k = 1\<close>
  is a \<^verbatim>\<open>TypeError\<close>.
\<close>

definition k_nearest_stop_coords :: "coord list \<Rightarrow> real \<Rightarrow> real \<Rightarrow> nat \<Rightarrow> error + coord list" where
  "k_nearest_stop_coords tree lat lon k =
     (if k = 0 then Inl ValueError
      else if k = 1 then Inl TypeError
      else collect (tree_data_at tree) (tree_query tree (lat, lon) k))"

text \<open>\<open>stop_id\<close>: \<^verbatim>\<open>lookup_dict[coords]\<close>.\<close>

definition stop_id :: "(coord \<Rightarrow> stop option) \<Rightarrow> coord \<Rightarrow> error + stop" where
  "stop_id lookup_dict coords =
     (case lookup_dict coords of None \<Rightarrow> Inl KeyError | Some s \<Rightarrow> Inr s)"

text \<open>
  \<open>journey_transits\<close>. The test \<^verbatim>\<open>if max_changes and len(changes) - 2 > max_changes\<close>
  reads \<open>max_changes\<close> as a truth value first: \<^verbatim>\<open>None\<close> and \<open>0\<close> are both false.
\<close>

definition journey_transits :: "multigraph \<Rightarrow> stop \<Rightarrow> stop \<Rightarrow> int option \<Rightarrow> error + stop list" where
  "journey_transits graph origin_stop_id destination_stop_id max_changes =
     (case shortest_path graph origin_stop_id destination_stop_id of
        Inl e \<Rightarrow> Inl e
      | Inr changes \<Rightarrow>
          (case max_changes of
             None \<Rightarrow> Inr changes
           | Some m \<Rightarrow>
               if m \<noteq> 0 \<and> int (length changes) - 2 > m then Inr [] else Inr changes))"

text \<open>\<open>lines_connecting_stops\<close>: the lines of the edges \<^verbatim>\<open>graph[origin][destination]\<close>.\<close>

definition lines_connecting_stops :: "multigraph \<Rightarrow> stop \<Rightarrow> stop \<Rightarrow> error + line list" where
  "lines_connecting_stops graph origin_stop_id destination_stop_id =
     graph_lines graph origin_stop_id destination_stop_id"

text \<open>
  \<open>parse_route\<close> is a generator; \<open>find_routes\<close> consumes it at once with \<^verbatim>\<open>list(...)\<close>,
  so the model returns the list of the dictionaries it yields, or the first exception.
  \<^verbatim>\<open>next(changes)\<close> on an empty path raises \<^verbatim>\<open>StopIteration\<close> inside the generator, which
  Python turns into a \<^verbatim>\<open>RuntimeError\<close>. The body reads the globals \<open>GRAPH\<close> and
  \<open>STOP_COORDS\<close>; its \<open>graph\<close> parameter is never used.
\<close>

definition stop_dict :: "stop \<Rightarrow> coord \<Rightarrow> pyval" where
  "stop_dict s c = Dict [(''id'', Str s), (''lat'', Float (fst c)), (''lng'', Float (snd c))]"

definition segment :: "line list \<Rightarrow> stop \<Rightarrow> coord \<Rightarrow> stop \<Rightarrow> coord \<Rightarrow> pyval" where
  "segment lines prev_stop pc next_stop nc =
     Dict [(''busses'', PyList (map Str lines)),
           (''board'', stop_dict prev_stop pc),
           (''deboard'', stop_dict next_stop nc)]"

fun parse_loop :: "env \<Rightarrow> stop \<Rightarrow> stop list \<Rightarrow> error + pyval list" where
  "parse_loop E prev_stop [] = Inr []"
| "parse_loop E prev_stop (next_stop # rest) =
     (case graph_lines (GRAPH E) prev_stop next_stop of
        Inl e \<Rightarrow> Inl e
      | Inr lines \<Rightarrow>
          (case STOP_COORDS E prev_stop of
             None \<Rightarrow> Inl KeyError
           | Some pc \<Rightarrow>
               (case STOP_COORDS E next_stop of
                  None \<Rightarrow> Inl KeyError
                | Some nc \<Rightarrow>
                    (case parse_loop E next_stop rest of
                       Inl e \<Rightarrow> Inl e
                     | Inr segs \<Rightarrow> Inr (segment lines prev_stop pc next_stop nc # segs)))))"

definition parse_route :: "env \<Rightarrow> stop list \<Rightarrow> error + pyval list" where
  "parse_route E changes =
     (case changes of
        [] \<Rightarrow> Inl RuntimeError
      | prev_stop # rest \<Rightarrow> parse_loop E prev_stop rest)"

text \<open>
  \<^verbatim>\<open>min(transit_options, key=len)\<close>: the first element of least length, a \<^verbatim>\<open>ValueError\<close> on
  the empty list.
\<close>

definition min_by_len :: "'a list list \<Rightarrow> error + 'a list" where
  "min_by_len options =
     (case options of
        [] \<Rightarrow> Inl ValueError
      | t # ts \<Rightarrow> Inr (foldl (\<lambda>best x. if length x < length best then x else best) t ts))"

text \<open>Lines 31 to 35 of \<open>find_routes\<close>: only the options of the least length are kept.\<close>

definition keep_fewest :: "'a list list \<Rightarrow> error + 'a list list" where
  "keep_fewest transit_options =
     (case min_by_len transit_options of
        Inl e \<Rightarrow> Inl e
      | Inr shortest \<Rightarrow>
          (let fewest_changes = length shortest
           in Inr (filter (\<lambda>t. length t = fewest_changes) transit_options)))"

text \<open>Lines 18 to 23: the stops within walking distance, in the order of the index.\<close>

definition walkable :: "env \<Rightarrow> coord \<Rightarrow> int \<Rightarrow> coord list \<Rightarrow> coord list" where
  "walkable E point max_walk stops =
     filter (\<lambda>s. distance_meters E point s \<le> real_of_int max_walk) stops"

text \<open>Lines 25 to 29: one path search per pair, origins in the outer loop.\<close>

definition pair_transits :: "env \<Rightarrow> coord \<times> coord \<Rightarrow> error + stop list" where
  "pair_transits E pair =
     (case stop_id (COORD_STOPS E) (fst pair) of
        Inl e \<Rightarrow> Inl e
      | Inr o_id \<Rightarrow>
          (case stop_id (COORD_STOPS E) (snd pair) of
             Inl e \<Rightarrow> Inl e
           | Inr d_id \<Rightarrow> journey_transits (GRAPH E) o_id d_id None))"

definition find_routes :: "env \<Rightarrow> coord \<Rightarrow> coord \<Rightarrow> int \<Rightarrow> error + pyval list list" where
  "find_routes E origin destination max_walk =
     (case k_nearest_stop_coords (ALL_STOPS_TREE E) (fst origin) (snd origin) 10 of
        Inl e \<Rightarrow> Inl e
      | Inr origin_nearest \<Rightarrow>
     (case k_nearest_stop_coords (ALL_STOPS_TREE E) (fst destination) (snd destination) 10 of
        Inl e \<Rightarrow> Inl e
      | Inr destination_nearest \<Rightarrow>
     (let origin_stops = walkable E origin max_walk origin_nearest;
          destination_stops = walkable E destination max_walk destination_nearest
      in case collect (pair_transits E) (List.product origin_stops destination_stops) of
           Inl e \<Rightarrow> Inl e
         | Inr transit_options \<Rightarrow>
             (case keep_fewest transit_options of
                Inl e \<Rightarrow> Inl e
              | Inr kept \<Rightarrow> collect (parse_route E) kept))))"

section \<open>Notions used to state the properties\<close>

text \<open>
  The invariant of the search from \<open>s\<close>, with the number of hops \<open>depth\<close> at which each
  seen stop was reached: the paths in the queue have the recorded lengths, in increasing
  order and at most one hop apart; a seen stop that has left the queue is not the target,
  lies no deeper than the queue, and all its neighbours are seen, at most one hop deeper.
\<close>

definition bfs_inv ::
  "multigraph \<Rightarrow> stop \<Rightarrow> stop \<Rightarrow> (stop \<Rightarrow> nat) \<Rightarrow> (stop \<times> stop list) list \<Rightarrow> stop list \<Rightarrow> bool" where
  "bfs_inv G s t depth queue seen =
     (s \<in> set seen \<and> depth s = 0 \<and>
      (\<forall>(u, p)\<in>set queue. u \<in> set seen \<and> length p = depth u) \<and>
      sorted (map (\<lambda>(u, p). length p) queue) \<and>
      (\<forall>(u, p)\<in>set queue. \<forall>(v, q)\<in>set queue. length q \<le> length p + 1) \<and>
      (\<forall>v\<in>set seen. v \<notin> fst ` set queue \<longrightarrow>
         v \<noteq> t \<and> (\<forall>(u, p)\<in>set queue. depth v \<le> length p) \<and>
         (\<forall>n\<in>set (neighbors G v). n \<in> set seen \<and> depth n \<le> depth v + 1)))"

text \<open>A path whose consecutive stops are adjacent in the graph.\<close>

fun hops_adjacent :: "multigraph \<Rightarrow> stop list \<Rightarrow> bool" where
  "hops_adjacent G (u # v # rest) = (v \<in> set (neighbors G u) \<and> hops_adjacent G (v # rest))"
| "hops_adjacent G _ = True"

text \<open>The field \<open>k2\<close> of the dictionary stored under \<open>k1\<close> in a segment.\<close>

definition seg_field :: "pyval \<Rightarrow> string \<Rightarrow> string \<Rightarrow> pyval option" where
  "seg_field seg k1 k2 = (case dict_get seg k1 of None \<Rightarrow> None | Some d \<Rightarrow> dict_get d k2)"

text \<open>
  The dictionary that \<open>parse_route\<close> yields for one hop, when both stops have
  coordinates.
\<close>

definition hop_segment :: "env \<Rightarrow> stop \<times> stop \<Rightarrow> pyval" where
  "hop_segment E hop =
     segment (edge_lines (GRAPH E) (fst hop) (snd hop))
       (fst hop) (the (STOP_COORDS E (fst hop))) (snd hop) (the (STOP_COORDS E (snd hop)))"

text \<open>The candidate pairs of one planning call, in the order of the loops.\<close>

definition candidate_pairs ::
  "env \<Rightarrow> coord \<Rightarrow> coord \<Rightarrow> int \<Rightarrow> coord list \<Rightarrow> coord list \<Rightarrow> (coord \<times> coord) list" where
  "candidate_pairs E origin destination max_walk origin_nearest destination_nearest =
     List.product (walkable E origin max_walk origin_nearest)
                  (walkable E destination max_walk destination_nearest)"

text \<open>
  Lines 25 to 37 of \<open>find_routes\<close> for a given list of candidate pairs: the path search
  for every pair, the selection of the options of least length and their decomposition.
\<close>

definition plan_pairs :: "env \<Rightarrow> (coord \<times> coord) list \<Rightarrow> error + pyval list list" where
  "plan_pairs E pairs =
     (case collect (pair_transits E) pairs of
        Inl e \<Rightarrow> Inl e
      | Inr transit_options \<Rightarrow>
          (case keep_fewest transit_options of
             Inl e \<Rightarrow> Inl e
           | Inr kept \<Rightarrow> collect (parse_route E) kept))"

text \<open>
  A candidate pair is known when both coordinates have a stop identifier and both stops are
  nodes of the graph; it is connected when a walk of the graph joins the two stops.
\<close>

definition known_pair :: "env \<Rightarrow> coord \<times> coord \<Rightarrow> bool" where
  "known_pair E pair =
     (case COORD_STOPS E (fst pair) of
        None \<Rightarrow> False
      | Some a \<Rightarrow>
          (case COORD_STOPS E (snd pair) of
             None \<Rightarrow> False
           | Some b \<Rightarrow> has_node (GRAPH E) a \<and> has_node (GRAPH E) b))"

definition pair_connected :: "env \<Rightarrow> coord \<times> coord \<Rightarrow> bool" where
  "pair_connected E pair =
     (case COORD_STOPS E (fst pair) of
        None \<Rightarrow> False
      | Some a \<Rightarrow>
          (case COORD_STOPS E (snd pair) of
             None \<Rightarrow> False
           | Some b \<Rightarrow> connected (GRAPH E) a b))"

text \<open>The decomposition of a path, hop by hop.\<close>

definition journey_of :: "env \<Rightarrow> stop list \<Rightarrow> pyval list" where
  "journey_of E path = map (hop_segment E) (zip path (tl path))"

section \<open>A small network\<close>

text \<open>
  Ten stops \<open>S0\<close> to \<open>S9\<close> on the meridian, one thousandth of a degree (111 m) apart.
  The lines join \<open>S3\<close>--\<open>S0\<close>--\<open>S1\<close>--\<open>S2\<close> and \<open>S1\<close>--\<open>S4\<close>, with two lines
  between \<open>S1\<close> and \<open>S2\<close>; \<open>S5\<close> and \<open>S6\<close> form a component of their own and
  \<open>S7\<close>, \<open>S8\<close>, \<open>S9\<close> are served by no line. Apart from the doubled edge the graph
  has no cycle, so between two connected stops there is one shortest path only, and a
  shortest-path search has no choice to make.
\<close>

definition ex_stops :: "coord list" where
  "ex_stops = [(0, 0), (1 / 1000, 0), (2 / 1000, 0), (3 / 1000, 0), (4 / 1000, 0),
               (5 / 1000, 0), (6 / 1000, 0), (7 / 1000, 0), (8 / 1000, 0), (9 / 1000, 0)]"

definition ex_names :: "stop list" where
  "ex_names = [''S0'', ''S1'', ''S2'', ''S3'', ''S4'', ''S5'', ''S6'', ''S7'', ''S8'', ''S9'']"

definition ex_graph :: multigraph where
  "ex_graph =
     \<lparr> g_nodes = ex_names,
       g_edges = [(''S0'', ''S1'', ''L1''), (''S1'', ''S2'', ''L1''), (''S1'', ''S2'', ''L2''),
                  (''S0'', ''S3'', ''L3''), (''S1'', ''S4'', ''L4''), (''S5'', ''S6'', ''L9'')] \<rparr>"

definition ex_env :: env where
  "ex_env =
     \<lparr> ALL_STOPS_TREE = ex_stops,
       COORD_STOPS = map_of (zip ex_stops ex_names),
       GRAPH = ex_graph,
       STOP_COORDS = map_of (zip ex_names ex_stops),
       distance_meters = (\<lambda>a b. 111000 * (\<bar>fst a - fst b\<bar> + \<bar>snd a - snd b\<bar>)) \<rparr>"

text \<open>
  Query points from which no two stops are equally far, so that the order of the nearest
  stops is fixed by the distances alone: \<open>ex_A\<close> lies 44.4 m from \<open>S0\<close> and 66.6 m from
  \<open>S1\<close>; \<open>ex_B\<close> 44.4 m from \<open>S4\<close> and 66.6 m from \<open>S3\<close>; \<open>ex_C\<close> 44.4 m from
  \<open>S4\<close> and 66.6 m from \<open>S5\<close>; \<open>ex_D\<close> 22.2 m from \<open>S5\<close> and 88.8 m from \<open>S6\<close>.
  The lists are the ten nearest stops of \<open>ex_B\<close>, \<open>ex_C\<close> and \<open>ex_D\<close>, nearest first;
  those of \<open>ex_A\<close> and of the position of \<open>S0\<close> are \<open>ex_stops\<close>.
\<close>

definition ex_A :: coord where
  "ex_A = (4 / 10000, 0)"

definition ex_B :: coord where
  "ex_B = (36 / 10000, 0)"

definition ex_C :: coord where
  "ex_C = (44 / 10000, 0)"

definition ex_D :: coord where
  "ex_D = (52 / 10000, 0)"

definition ex_near_B :: "coord list" where
  "ex_near_B = [(4 / 1000, 0), (3 / 1000, 0), (5 / 1000, 0), (2 / 1000, 0), (6 / 1000, 0),
                (1 / 1000, 0), (7 / 1000, 0), (0, 0), (8 / 1000, 0), (9 / 1000, 0)]"

definition ex_near_C :: "coord list" where
  "ex_near_C = [(4 / 1000, 0), (5 / 1000, 0), (3 / 1000, 0), (6 / 1000, 0), (2 / 1000, 0),
                (7 / 1000, 0), (1 / 1000, 0), (8 / 1000, 0), (0, 0), (9 / 1000, 0)]"

definition ex_near_D :: "coord list" where
  "ex_near_D = [(5 / 1000, 0), (6 / 1000, 0), (4 / 1000, 0), (7 / 1000, 0), (3 / 1000, 0),
                (8 / 1000, 0), (2 / 1000, 0), (9 / 1000, 0), (1 / 1000, 0), (0, 0)]"

text \<open>A second graph: four stops in a row.\<close>

definition ex_chain :: multigraph where
  "ex_chain =
     \<lparr> g_nodes = [],
       g_edges = [(''A'', ''B'', ''L1''), (''B'', ''C'', ''L1''), (''C'', ''D'', ''L2'')] \<rparr>"

section \<open>Termination of the search\<close>

lemma neighbors_are_nodes: "v \<in> set (neighbors G u) \<Longrightarrow> v \<in> set (node_list G)"
  by (auto simp: neighbors_def node_list_def split: if_splits)

lemma neighbors_sym: "v \<in> set (neighbors G u) \<longleftrightarrow> u \<in> set (neighbors G v)"
  by (auto simp: neighbors_def split: if_splits)

lemma fresh_shrinks_unseen:
  assumes "fresh G seen u \<noteq> []"
  shows "card (set (node_list G) - set (seen @ fresh G seen u)) < card (set (node_list G) - set seen)"
proof -
  from assms obtain v where v: "v \<in> set (fresh G seen u)"
    by (cases "fresh G seen u") auto
  then have "v \<in> set (node_list G)" "v \<notin> set seen"
    by (auto simp: fresh_def neighbors_are_nodes)
  with v have "set (node_list G) - set (seen @ fresh G seen u) \<subset> set (node_list G) - set seen"
    by auto
  then show ?thesis
    by (simp add: psubset_card_mono)
qed

termination bfs
proof (relation "measures [\<lambda>(G, t, queue, seen). card (set (node_list G) - set seen),
                           \<lambda>(G, t, queue, seen). length queue]", goal_cases)
  case 1
  show ?case by simp
next
  case (2 G t u p queue seen)
  show ?case
  proof (cases "fresh G seen u = []")
    case True
    then show ?thesis by simp
  next
    case False
    from fresh_shrinks_unseen [OF this] show ?thesis by simp
  qed
qed

section \<open>The search returns a shortest walk, and finds one whenever there is one\<close>

lemma walk_hd_node: "is_walk G p \<Longrightarrow> has_node G (hd p)"
proof (induction G p rule: is_walk.induct)
  case (3 G u v rest)
  then have "u \<in> set (neighbors G v)" using neighbors_sym by auto
  then show ?case by (simp add: has_node_def neighbors_are_nodes)
qed auto

lemma walk_last_node: "is_walk G p \<Longrightarrow> has_node G (last p)"
  by (induction G p rule: is_walk.induct) auto

lemma walk_snoc:
  "is_walk G (p @ [u]) \<Longrightarrow> v \<in> set (neighbors G u) \<Longrightarrow> is_walk G (p @ [u, v])"
proof (induction G p rule: is_walk.induct)
  case (1 G)
  then show ?case by (simp add: has_node_def neighbors_are_nodes)
next
  case (2 G w)
  then show ?case by (simp add: has_node_def neighbors_are_nodes)
next
  case (3 G a b rest)
  then show ?case by simp
qed

lemma walk_closed:
  "is_walk G p \<Longrightarrow> hd p \<in> S \<Longrightarrow> (\<forall>v\<in>S. set (neighbors G v) \<subseteq> S) \<Longrightarrow> last p \<in> S"
proof (induction G p rule: is_walk.induct)
  case (3 G u v rest)
  from 3(2,3,4) have "v \<in> S" by auto
  with 3 show ?case by simp
qed auto

lemma bfs_sound:
  "bfs G t queue seen = Some path \<Longrightarrow>
   (\<forall>(u, p)\<in>set queue. is_walk G (rev (u # p)) \<and> hd (rev (u # p)) = s) \<Longrightarrow>
   is_walk G path \<and> hd path = s \<and> last path = t"
proof (induction G t queue seen rule: bfs.induct)
  case (1 G t seen)
  then show ?case by simp
next
  case (2 G t u p queue seen)
  show ?case
  proof (cases "u = t")
    case True
    with 2 show ?thesis by auto
  next
    case False
    have "\<forall>(w, q)\<in>set (queue @ map (\<lambda>v. (v, u # p)) (fresh G seen u)).
            is_walk G (rev (w # q)) \<and> hd (rev (w # q)) = s"
    proof -
      have u: "is_walk G (rev p @ [u])" "hd (rev p @ [u]) = s"
        using 2(3) by auto
      have "is_walk G (rev (v # u # p)) \<and> hd (rev (v # u # p)) = s"
        if "v \<in> set (fresh G seen u)" for v
      proof -
        from that have "v \<in> set (neighbors G u)" by (simp add: fresh_def)
        from walk_snoc [OF u(1) this] u(2) show ?thesis
          by (cases "rev p") auto
      qed
      with 2(3) show ?thesis by auto
    qed
    with 2 False show ?thesis by simp
  qed
qed

lemma bfs_none_closed:
  "bfs G t queue seen = None \<Longrightarrow>
   (\<forall>v\<in>set seen. v \<in> fst ` set queue \<or> (v \<noteq> t \<and> set (neighbors G v) \<subseteq> set seen)) \<Longrightarrow>
   \<exists>S. set seen \<subseteq> S \<and> t \<notin> S \<and> (\<forall>v\<in>S. set (neighbors G v) \<subseteq> S)"
proof (induction G t queue seen rule: bfs.induct)
  case (1 G t seen)
  then have "t \<notin> set seen \<and> (\<forall>v\<in>set seen. set (neighbors G v) \<subseteq> set seen)"
    by auto
  then show ?case by blast
next
  case (2 G t u p queue seen)
  from 2(2) have ut: "u \<noteq> t" by (auto split: if_splits)
  let ?new = "fresh G seen u"
  have nb: "set (neighbors G u) \<subseteq> set (seen @ ?new)"
    by (auto simp: fresh_def)
  have inv: "\<forall>v\<in>set (seen @ ?new).
          v \<in> fst ` set (queue @ map (\<lambda>v. (v, u # p)) ?new) \<or>
          (v \<noteq> t \<and> set (neighbors G v) \<subseteq> set (seen @ ?new))"
  proof
    fix v assume v: "v \<in> set (seen @ ?new)"
    show "v \<in> fst ` set (queue @ map (\<lambda>v. (v, u # p)) ?new) \<or>
          (v \<noteq> t \<and> set (neighbors G v) \<subseteq> set (seen @ ?new))"
    proof (cases "v \<in> set ?new")
      case True
      then have "fst (v, u # p) \<in> fst ` set (queue @ map (\<lambda>v. (v, u # p)) ?new)"
        by (intro imageI) simp
      then show ?thesis by simp
    next
      case False
      with v have vs: "v \<in> set seen" by auto
      show ?thesis
      proof (cases "v = u")
        case True
        with ut nb show ?thesis by simp
      next
        case False
        with 2(3) vs show ?thesis by (auto simp: image_iff)
      qed
    qed
  qed
  from 2(2) ut have "bfs G t (queue @ map (\<lambda>v. (v, u # p)) ?new) (seen @ ?new) = None"
    by simp
  from 2(1) [OF ut this inv] obtain S where
    "set (seen @ ?new) \<subseteq> S \<and> t \<notin> S \<and> (\<forall>v\<in>S. set (neighbors G v) \<subseteq> S)" by blast
  then have "set seen \<subseteq> S \<and> t \<notin> S \<and> (\<forall>v\<in>S. set (neighbors G v) \<subseteq> S)" by auto
  then show ?case by blast
qed

lemma shortest_path_walk:
  assumes "shortest_path G s t = Inr path"
  shows "is_walk G path \<and> hd path = s \<and> last path = t"
proof -
  from assms have n: "has_node G s" and b: "bfs G t [(s, [])] [s] = Some path"
    by (auto simp: shortest_path_def split: if_splits option.splits)
  show ?thesis
    by (rule bfs_sound [OF b]) (use n in simp)
qed

lemma shortest_path_connected:
  assumes "connected G s t"
  shows "\<exists>path. shortest_path G s t = Inr path"
proof -
  from assms obtain p where p: "is_walk G p" "hd p = s" "last p = t"
    by (auto simp: connected_def)
  then have n: "has_node G s" "has_node G t"
    using walk_hd_node walk_last_node by auto
  have "bfs G t [(s, [])] [s] \<noteq> None"
  proof
    assume "bfs G t [(s, [])] [s] = None"
    from bfs_none_closed [OF this] obtain S where
      S: "s \<in> S" "t \<notin> S" "\<forall>v\<in>S. set (neighbors G v) \<subseteq> S" by auto
    from walk_closed [OF p(1) _ S(3)] p(2,3) S(1,2) show False by auto
  qed
  with n show ?thesis by (auto simp: shortest_path_def)
qed

text \<open>No walk between the two stops has fewer stops than the path that the search returns.\<close>

lemma is_walk_snoc_iff:
  "w \<noteq> [] \<Longrightarrow> is_walk G (w @ [v]) \<longleftrightarrow> is_walk G w \<and> v \<in> set (neighbors G (last w))"
proof (induction G w rule: is_walk.induct)
  case (2 G u)
  show ?case
  proof
    assume "is_walk G ([u] @ [v])"
    then have v: "v \<in> set (neighbors G u)" by simp
    then have "u \<in> set (neighbors G v)" using neighbors_sym by auto
    then have "has_node G u" by (simp add: has_node_def neighbors_are_nodes)
    with v show "is_walk G [u] \<and> v \<in> set (neighbors G (last [u]))" by simp
  next
    assume "is_walk G [u] \<and> v \<in> set (neighbors G (last [u]))"
    then show "is_walk G ([u] @ [v])"
      by (auto simp: has_node_def dest: neighbors_are_nodes)
  qed
qed auto

lemma walk_depth_bound:
  assumes inv: "bfs_inv G s t depth queue seen"
  shows "is_walk G w \<Longrightarrow> hd w = s \<Longrightarrow>
     (last w \<in> set seen \<and> depth (last w) \<le> length w - 1) \<or>
     (\<exists>(a, q)\<in>set queue. length q < length w - 1)"
proof (induction w rule: rev_induct)
  case Nil
  then show ?case by simp
next
  case (snoc v w)
  show ?case
  proof (cases "w = []")
    case True
    with snoc.prems inv show ?thesis by (simp add: bfs_inv_def)
  next
    case False
    with snoc.prems have w: "is_walk G w" "hd w = s" and v: "v \<in> set (neighbors G (last w))"
      by (simp_all add: is_walk_snoc_iff)
    from False have len: "length w - 1 < length (w @ [v]) - 1"
      by (cases w) auto
    from snoc.IH [OF w] show ?thesis
    proof
      assume u: "last w \<in> set seen \<and> depth (last w) \<le> length w - 1"
      show ?thesis
      proof (cases "last w \<in> fst ` set queue")
        case True
        then obtain q where q: "(last w, q) \<in> set queue" by auto
        with inv have "length q = depth (last w)" by (auto simp: bfs_inv_def)
        with u len have "length q < length (w @ [v]) - 1" by simp
        with q show ?thesis by blast
      next
        case False
        with inv u v have "v \<in> set seen \<and> depth v \<le> depth (last w) + 1"
          by (auto simp: bfs_inv_def)
        with u len show ?thesis by simp
      qed
    next
      assume "\<exists>(a, q)\<in>set queue. length q < length w - 1"
      with len show ?thesis by force
    qed
  qed
qed

lemma bfs_inv_step:
  assumes inv: "bfs_inv G s t depth ((u, p) # queue) seen" and ut: "u \<noteq> t"
  shows "bfs_inv G s t (\<lambda>v. if v \<in> set (fresh G seen u) then length p + 1 else depth v)
           (queue @ map (\<lambda>v. (v, u # p)) (fresh G seen u)) (seen @ fresh G seen u)"
proof -
  let ?new = "fresh G seen u"
  let ?depth = "\<lambda>v. if v \<in> set ?new then length p + 1 else depth v"
  let ?queue = "queue @ map (\<lambda>v. (v, u # p)) ?new"
  have new_unseen: "v \<notin> set seen" if "v \<in> set ?new" for v
    using that by (simp add: fresh_def)
  then have old_depth: "?depth v = depth v" if "v \<in> set seen" for v
    using that by auto
  from inv have s: "s \<in> set seen" "depth s = 0"
    and u: "u \<in> set seen" "length p = depth u"
    and entries: "\<And>v q. (v, q) \<in> set queue \<Longrightarrow> v \<in> set seen \<and> length q = depth v"
    and srt: "sorted (map (\<lambda>(u, p). length p) queue)"
    and lo: "\<And>v q. (v, q) \<in> set queue \<Longrightarrow> length p \<le> length q"
    and hi: "\<And>v q. (v, q) \<in> set queue \<Longrightarrow> length q \<le> length p + 1"
    and closed: "\<And>v. v \<in> set seen \<Longrightarrow> v \<noteq> u \<Longrightarrow> v \<notin> fst ` set queue \<Longrightarrow>
        v \<noteq> t \<and> depth v \<le> length p \<and>
        (\<forall>n\<in>set (neighbors G v). n \<in> set seen \<and> depth n \<le> depth v + 1)"
    by (auto simp: bfs_inv_def)
  have range: "length p \<le> length q \<and> length q \<le> length p + 1" if "(v, q) \<in> set ?queue" for v q
    using that lo hi by auto
  have seen_depth: "depth n \<le> length p + 1" if "n \<in> set seen" for n
  proof (cases "n = u \<or> n \<in> fst ` set queue")
    case True
    with u entries hi show ?thesis by force
  next
    case False
    with closed [of n] that show ?thesis by simp
  qed
  have 1: "s \<in> set (seen @ ?new) \<and> ?depth s = 0"
    using s old_depth by simp
  have 2: "\<forall>(v, q)\<in>set ?queue. v \<in> set (seen @ ?new) \<and> length q = ?depth v"
    using entries old_depth by auto
  have "sorted (map (\<lambda>v. k) xs)" for k :: nat and xs :: "stop list"
    by (induction xs) auto
  then have 3: "sorted (map (\<lambda>(u, p). length p) ?queue)"
    using srt hi by (auto simp: sorted_append comp_def)
  have 4: "\<forall>(a, q)\<in>set ?queue. \<forall>(b, r)\<in>set ?queue. length r \<le> length q + 1"
  proof (clarify)
    fix a q b r assume "(a, q) \<in> set ?queue" "(b, r) \<in> set ?queue"
    from range [OF this(1)] range [OF this(2)] show "length r \<le> length q + 1" by simp
  qed
  have 5: "v \<noteq> t \<and> (\<forall>(a, q)\<in>set ?queue. ?depth v \<le> length q) \<and>
        (\<forall>n\<in>set (neighbors G v). n \<in> set (seen @ ?new) \<and> ?depth n \<le> ?depth v + 1)"
    if v: "v \<in> set (seen @ ?new)" and nq: "v \<notin> fst ` set ?queue" for v
  proof -
    have "v \<notin> set ?new"
    proof
      assume "v \<in> set ?new"
      then have "fst (v, u # p) \<in> fst ` set ?queue" by (intro imageI) simp
      with nq show False by simp
    qed
    with v have vs: "v \<in> set seen" by simp
    from nq have vq: "v \<notin> fst ` set queue" by auto
    have dv: "?depth v = depth v" using vs by (rule old_depth)
    show ?thesis
    proof (cases "v = u")
      case True
      have "n \<in> set (seen @ ?new) \<and> ?depth n \<le> depth u + 1" if "n \<in> set (neighbors G u)" for n
      proof (cases "n \<in> set seen")
        case True
        with seen_depth [of n] u(2) old_depth [of n] show ?thesis by simp
      next
        case False
        with that have "n \<in> set ?new" by (simp add: fresh_def)
        with u(2) show ?thesis by simp
      qed
      moreover have "\<forall>(a, q)\<in>set ?queue. depth u \<le> length q"
        using range u(2) by auto
      ultimately show ?thesis using True ut dv by auto
    next
      case False
      from closed [OF vs False vq] have c: "v \<noteq> t" "depth v \<le> length p"
        "\<forall>n\<in>set (neighbors G v). n \<in> set seen \<and> depth n \<le> depth v + 1" by auto
      have "\<forall>(a, q)\<in>set ?queue. depth v \<le> length q"
        using range c(2) by fastforce
      moreover have "\<forall>n\<in>set (neighbors G v). n \<in> set (seen @ ?new) \<and> ?depth n \<le> depth v + 1"
        using c(3) old_depth by auto
      ultimately show ?thesis using c(1) dv by auto
    qed
  qed
  from 1 2 3 4 5 show ?thesis
    unfolding bfs_inv_def by blast
qed

lemma bfs_shortest:
  "bfs G t queue seen = Some path \<Longrightarrow> bfs_inv G s t depth queue seen \<Longrightarrow>
   is_walk G w \<Longrightarrow> hd w = s \<Longrightarrow> last w = t \<Longrightarrow> length path \<le> length w"
proof (induction G t queue seen arbitrary: depth rule: bfs.induct)
  case (1 G t seen)
  then show ?case by simp
next
  case (2 G t u p queue seen)
  show ?case
  proof (cases "u = t")
    case True
    with 2(2) have path: "length path = length p + 1" by auto
    from 2(3) have dp: "length p = depth t" and least: "\<forall>(a, q)\<in>set queue. length p \<le> length q"
      using True by (auto simp: bfs_inv_def)
    from 2(4) have wl: "0 < length w" by (cases w) auto
    from walk_depth_bound [OF 2(3) 2(4) 2(5)] show ?thesis
    proof
      assume "last w \<in> set seen \<and> depth (last w) \<le> length w - 1"
      with 2(6) dp path wl show ?thesis by (cases w) auto
    next
      assume "\<exists>(a, q)\<in>set ((u, p) # queue). length q < length w - 1"
      then obtain a q where "(a, q) \<in> set ((u, p) # queue)" "length q < length w - 1" by auto
      with least have "length p < length w - 1" by auto
      with path show ?thesis by simp
    qed
  next
    case False
    from 2(2) False have run: "bfs G t (queue @ map (\<lambda>v. (v, u # p)) (fresh G seen u))
        (seen @ fresh G seen u) = Some path" by simp
    from 2(1) [OF False run bfs_inv_step [OF 2(3) False] 2(4) 2(5) 2(6)] show ?thesis .
  qed
qed

lemma shortest_path_shortest:
  assumes "shortest_path G s t = Inr path" "is_walk G w" "hd w = s" "last w = t"
  shows "length path \<le> length w"
proof -
  from assms(1) have run: "bfs G t [(s, [])] [s] = Some path"
    by (auto simp: shortest_path_def split: if_splits option.splits)
  have "bfs_inv G s t (\<lambda>v. 0) [(s, [])] [s]"
    by (simp add: bfs_inv_def)
  from bfs_shortest [OF run this assms(2,3,4)] show ?thesis .
qed

section \<open>Loops, minimum and decomposition\<close>

lemma collect_Inr_iff: "collect f xs = Inr ys \<longleftrightarrow> list_all2 (\<lambda>x y. f x = Inr y) xs ys"
proof (induction xs arbitrary: ys)
  case Nil
  then show ?case by auto
next
  case (Cons x xs)
  show ?case
    by (cases ys) (auto simp: Cons.IH [symmetric] split: sum.splits)
qed

lemma collect_map: "(\<And>x. x \<in> set xs \<Longrightarrow> f x = Inr (g x)) \<Longrightarrow> collect f xs = Inr (map g xs)"
  by (induction xs) auto

lemma collect_first_error:
  assumes "\<And>x. x \<in> set xs \<Longrightarrow> f x = Inl e \<or> (\<exists>y. f x = Inr y)"
    and "\<exists>x\<in>set xs. f x = Inl e"
  shows "collect f xs = Inl e"
  using assms
proof (induction xs)
  case Nil
  then show ?case by simp
next
  case (Cons x xs)
  show ?case
  proof (cases "f x")
    case (Inl e')
    with Cons.prems(1) [of x] show ?thesis by simp
  next
    case (Inr y)
    with Cons.prems(2) have "\<exists>x\<in>set xs. f x = Inl e" by auto
    with Cons.IH Cons.prems(1) have "collect f xs = Inl e" by simp
    with Inr show ?thesis by simp
  qed
qed

lemma foldl_shorter_length:
  "length (foldl (\<lambda>best x. if length x < length best then x else best) t ts)
     = Min (length ` set (t # ts))"
proof (induction ts arbitrary: t)
  case Nil
  then show ?case by simp
next
  case (Cons x ts)
  have m: "Min (length ` set (t # x # ts)) = Min (length ` set ((if length x < length t then x else t) # ts))"
  proof (cases "ts = []")
    case True
    then show ?thesis by (simp add: min_def)
  next
    case False
    then have "Min (length ` set (a # b # ts)) = min (min (length a) (length b)) (Min (length ` set ts))"
      "Min (length ` set (a # ts)) = min (length a) (Min (length ` set ts))" for a b :: "'a list"
      by (simp_all add: min.assoc)
    then show ?thesis by (simp add: min_def)
  qed
  show ?case
    unfolding m using Cons.IH [of "if length x < length t then x else t"] by simp
qed

lemma keep_fewest_filter:
  assumes "transit_options \<noteq> []"
  shows "keep_fewest transit_options =
     Inr (filter (\<lambda>t. length t = Min (length ` set transit_options)) transit_options)"
proof -
  from assms obtain t ts where "transit_options = t # ts"
    by (cases transit_options) auto
  then show ?thesis
    by (simp only: keep_fewest_def min_by_len_def list.case sum.case Let_def foldl_shorter_length)
qed


lemma parse_loop_segments:
  "parse_loop E prev_stop rest = Inr segs \<Longrightarrow>
   \<forall>seg\<in>set segs. \<exists>lines b bc d dc. seg = segment lines b bc d dc"
proof (induction rest arbitrary: prev_stop segs)
  case Nil
  then show ?case by simp
next
  case (Cons next_stop rest)
  from Cons.prems obtain lines pc nc segs' where
    s: "segs = segment lines prev_stop pc next_stop nc # segs'"
    and r: "parse_loop E next_stop rest = Inr segs'"
    by (auto split: sum.splits option.splits)
  from Cons.IH [OF r] s show ?case by (metis set_ConsD)
qed

lemma parse_loop_hops:
  "hops_adjacent (GRAPH E) (prev_stop # rest) \<Longrightarrow>
   (\<forall>s\<in>set (prev_stop # rest). STOP_COORDS E s \<noteq> None) \<Longrightarrow>
   parse_loop E prev_stop rest = Inr (map (hop_segment E) (zip (prev_stop # rest) rest))"
proof (induction rest arbitrary: prev_stop)
  case Nil
  then show ?case by simp
next
  case (Cons next_stop rest)
  from Cons.prems have "parse_loop E next_stop rest = Inr (map (hop_segment E) (zip (next_stop # rest) rest))"
    by (intro Cons.IH) auto
  with Cons.prems show ?case
    by (auto simp: graph_lines_def hop_segment_def)
qed

lemma edge_lines_set:
  "set (edge_lines G u v) = {l. (u, v, l) \<in> set (g_edges G) \<or> (v, u, l) \<in> set (g_edges G)}"
  by (force simp: edge_lines_def)

lemma edge_lines_nonempty: "v \<in> set (neighbors G u) \<Longrightarrow> edge_lines G u v \<noteq> []"
proof -
  assume "v \<in> set (neighbors G u)"
  then obtain l where "(u, v, l) \<in> set (g_edges G) \<or> (v, u, l) \<in> set (g_edges G)"
    by (auto simp: neighbors_def split: if_splits)
  then have "l \<in> set (edge_lines G u v)" by (simp add: edge_lines_set)
  then show ?thesis by auto
qed

lemma hops_adjacent_nth:
  "hops_adjacent G p \<Longrightarrow> Suc i < length p \<Longrightarrow> p ! Suc i \<in> set (neighbors G (p ! i))"
proof (induction G p arbitrary: i rule: hops_adjacent.induct)
  case (1 G u v rest)
  then show ?case by (cases i) auto
qed auto

lemma parse_route_journey:
  assumes "path \<noteq> []" "hops_adjacent (GRAPH E) path" "\<forall>s\<in>set path. STOP_COORDS E s \<noteq> None"
  shows "parse_route E path = Inr (journey_of E path)"
proof -
  from assms(1) obtain prev_stop rest where p: "path = prev_stop # rest"
    by (cases path) auto
  with assms(2,3) parse_loop_hops [of E prev_stop rest] show ?thesis
    by (simp add: parse_route_def journey_of_def)
qed

lemma journey_of_length: "length (journey_of E path) = length path - 1"
  by (simp add: journey_of_def)

lemma journey_of_nth:
  "i < length path - 1 \<Longrightarrow> journey_of E path ! i = hop_segment E (path ! i, path ! Suc i)"
  by (simp add: journey_of_def nth_tl)

lemma hop_segment_fields:
  "dict_get (hop_segment E (u, v)) ''busses'' = Some (PyList (map Str (edge_lines (GRAPH E) u v)))"
  "seg_field (hop_segment E (u, v)) ''board'' ''id'' = Some (Str u)"
  "seg_field (hop_segment E (u, v)) ''deboard'' ''id'' = Some (Str v)"
  "STOP_COORDS E u = Some c \<Longrightarrow>
     seg_field (hop_segment E (u, v)) ''board'' ''lat'' = Some (Float (fst c)) \<and>
     seg_field (hop_segment E (u, v)) ''board'' ''lng'' = Some (Float (snd c))"
  "STOP_COORDS E v = Some d \<Longrightarrow>
     seg_field (hop_segment E (u, v)) ''deboard'' ''lat'' = Some (Float (fst d)) \<and>
     seg_field (hop_segment E (u, v)) ''deboard'' ''lng'' = Some (Float (snd d))"
  by (simp_all add: hop_segment_def segment_def stop_dict_def seg_field_def)


section \<open>The planner, step by step\<close>

lemma find_routes_unfold:
  assumes "k_nearest_stop_coords (ALL_STOPS_TREE E) (fst origin) (snd origin) 10 = Inr origin_nearest"
    and "k_nearest_stop_coords (ALL_STOPS_TREE E) (fst destination) (snd destination) 10 = Inr destination_nearest"
  shows "find_routes E origin destination max_walk =
     (case collect (pair_transits E)
             (candidate_pairs E origin destination max_walk origin_nearest destination_nearest) of
        Inl e \<Rightarrow> Inl e
      | Inr transit_options \<Rightarrow>
          (case keep_fewest transit_options of
             Inl e \<Rightarrow> Inl e
           | Inr kept \<Rightarrow> collect (parse_route E) kept))"
  by (simp add: find_routes_def candidate_pairs_def assms Let_def)

lemma find_routes_Inr:
  assumes "find_routes E origin destination max_walk = Inr journeys"
  shows "\<exists>kept. collect (parse_route E) kept = Inr journeys"
  using assms by (auto simp: find_routes_def Let_def split: sum.splits)

lemma parse_route_segments_shape:
  assumes "parse_route E path = Inr segs" "seg \<in> set segs"
  shows "\<exists>lines b bc d dc. seg = segment lines b bc d dc"
proof -
  from assms(1) obtain prev_stop rest where "parse_loop E prev_stop rest = Inr segs"
    by (auto simp: parse_route_def split: list.splits)
  from parse_loop_segments [OF this] assms(2) show ?thesis by blast
qed

lemma collect_member:
  "collect f xs = Inr ys \<Longrightarrow> y \<in> set ys \<Longrightarrow> \<exists>x\<in>set xs. f x = Inr y"
proof (induction xs arbitrary: ys)
  case Nil
  then show ?case by simp
next
  case (Cons x xs)
  from Cons.prems obtain z zs where "f x = Inr z" "collect f xs = Inr zs" "ys = z # zs"
    by (auto split: sum.splits)
  with Cons.IH [of zs] Cons.prems(2) show ?case by auto
qed

lemma walk_nodes: "is_walk G p \<Longrightarrow> s \<in> set p \<Longrightarrow> has_node G s"
proof (induction G p rule: is_walk.induct)
  case (3 G u v rest)
  from 3(2) have "u \<in> set (neighbors G v)" using neighbors_sym by auto
  then have "has_node G u" by (simp add: has_node_def neighbors_are_nodes)
  with 3 show ?case by auto
qed auto

lemma walk_hops_adjacent: "is_walk G p \<Longrightarrow> hops_adjacent G p"
  by (induction G p rule: is_walk.induct) auto

lemma walk_nonempty: "is_walk G p \<Longrightarrow> p \<noteq> []"
  by auto

lemma pair_transits_disconnected:
  assumes "known_pair E pair" "\<not> pair_connected E pair"
  shows "pair_transits E pair = Inl NetworkXNoPath"
proof -
  from assms(1) obtain a b where ab: "COORD_STOPS E (fst pair) = Some a" "COORD_STOPS E (snd pair) = Some b"
    and nodes: "has_node (GRAPH E) a" "has_node (GRAPH E) b"
    by (auto simp: known_pair_def split: option.splits)
  from assms(2) ab have nc: "\<not> connected (GRAPH E) a b"
    by (simp add: pair_connected_def)
  have "shortest_path (GRAPH E) a b = Inl NetworkXNoPath"
  proof (cases "shortest_path (GRAPH E) a b")
    case (Inl e)
    with nodes show ?thesis
      by (auto simp: shortest_path_def split: option.splits)
  next
    case (Inr p)
    from shortest_path_walk [OF this] nc show ?thesis
      by (auto simp: connected_def)
  qed
  with ab show ?thesis
    by (simp add: pair_transits_def stop_id_def journey_transits_def)
qed

lemma pair_transits_connected:
  assumes "pair_connected E pair"
  shows "\<exists>p. pair_transits E pair = Inr p \<and> is_walk (GRAPH E) p"
proof -
  from assms obtain a b where ab: "COORD_STOPS E (fst pair) = Some a" "COORD_STOPS E (snd pair) = Some b"
    and c: "connected (GRAPH E) a b"
    by (auto simp: pair_connected_def split: option.splits)
  from shortest_path_connected [OF c] obtain p where p: "shortest_path (GRAPH E) a b = Inr p"
    by blast
  from shortest_path_walk [OF p] p ab show ?thesis
    by (simp add: pair_transits_def stop_id_def journey_transits_def)
qed

lemma collect_all_Inr:
  "(\<And>x. x \<in> set xs \<Longrightarrow> \<exists>y. f x = Inr y \<and> P y) \<Longrightarrow>
   \<exists>ys. collect f xs = Inr ys \<and> length ys = length xs \<and> (\<forall>y\<in>set ys. P y)"
proof (induction xs)
  case Nil
  then show ?case by simp
next
  case (Cons x xs)
  from Cons.prems [of x] obtain y where y: "f x = Inr y" "P y" by auto
  from Cons.IH Cons.prems obtain ys where
    "collect f xs = Inr ys" "length ys = length xs" "\<forall>y\<in>set ys. P y" by auto
  with y show ?case by auto
qed

lemma pair_connected_iff:
  assumes "known_pair E pair"
  shows "pair_connected E pair \<longleftrightarrow> (\<exists>p. pair_transits E pair = Inr p)"
proof
  assume "pair_connected E pair"
  from pair_transits_connected [OF this] show "\<exists>p. pair_transits E pair = Inr p" by blast
next
  assume r: "\<exists>p. pair_transits E pair = Inr p"
  show "pair_connected E pair"
  proof (rule ccontr)
    assume "\<not> pair_connected E pair"
    from pair_transits_disconnected [OF assms this] r show False by simp
  qed
qed

lemma find_routes_plan:
  assumes "k_nearest_stop_coords (ALL_STOPS_TREE E) (fst origin) (snd origin) 10 = Inr origin_nearest"
    and "k_nearest_stop_coords (ALL_STOPS_TREE E) (fst destination) (snd destination) 10 = Inr destination_nearest"
  shows "find_routes E origin destination max_walk =
     plan_pairs E (candidate_pairs E origin destination max_walk origin_nearest destination_nearest)"
  by (simp add: find_routes_unfold [OF assms] plan_pairs_def)

lemma ex_nearest:
  "k_nearest_stop_coords (ALL_STOPS_TREE ex_env) (fst (0 :: real, 0 :: real)) (snd (0 :: real, 0 :: real)) 10 = Inr ex_stops"
  "k_nearest_stop_coords (ALL_STOPS_TREE ex_env) (fst ex_A) (snd ex_A) 10 = Inr ex_stops"
  "k_nearest_stop_coords (ALL_STOPS_TREE ex_env) (fst ex_B) (snd ex_B) 10 = Inr ex_near_B"
  "k_nearest_stop_coords (ALL_STOPS_TREE ex_env) (fst ex_C) (snd ex_C) 10 = Inr ex_near_C"
  "k_nearest_stop_coords (ALL_STOPS_TREE ex_env) (fst ex_D) (snd ex_D) 10 = Inr ex_near_D"
  by code_simp+

lemma ex_two_journeys:
  "find_routes ex_env ex_A ex_B 100
     = Inr [[segment [''L3''] ''S0'' (0, 0) ''S3'' (3 / 1000, 0)],
            [segment [''L4''] ''S1'' (1 / 1000, 0) ''S4'' (4 / 1000, 0)]]"
  by code_simp

section \<open>The walking-distance filter\<close>

text \<open>
  Claim C8. After the two queries of the index, \<open>find_routes\<close> runs lines 25 to 37 on the
  pairs of the origin candidates and the destination candidates that pass the test
  \<^verbatim>\<open>distance(point, s).meters <= max_walk\<close>, each against its own query point. So a stop
  returned by the index whose distance is exactly \<open>max_walk\<close> is among the stops the
  planner searches from (or to), and a stop whose distance is greater is not. In the
  example \<open>S1\<close> lies exactly 111 m from the position of \<open>S0\<close>: with \<open>max_walk = 111\<close>
  the planner returns the journey that starts (or ends) at \<open>S1\<close>, with \<open>max_walk = 110\<close>
  it does not.
\<close>

theorem find_routes_walking_distance:
  assumes "k_nearest_stop_coords (ALL_STOPS_TREE E) (fst origin) (snd origin) 10 = Inr origin_nearest"
    and "k_nearest_stop_coords (ALL_STOPS_TREE E) (fst destination) (snd destination) 10 = Inr destination_nearest"
  shows "\<exists>origin_stops destination_stops.
           find_routes E origin destination max_walk
             = plan_pairs E (List.product origin_stops destination_stops) \<and>
           origin_stops
             = filter (\<lambda>s. distance_meters E origin s \<le> real_of_int max_walk) origin_nearest \<and>
           destination_stops
             = filter (\<lambda>s. distance_meters E destination s \<le> real_of_int max_walk) destination_nearest \<and>
           (\<forall>s\<in>set origin_nearest.
              distance_meters E origin s = real_of_int max_walk \<longrightarrow> s \<in> set origin_stops) \<and>
           (\<forall>s. distance_meters E origin s > real_of_int max_walk \<longrightarrow> s \<notin> set origin_stops) \<and>
           (\<forall>s\<in>set destination_nearest.
              distance_meters E destination s = real_of_int max_walk \<longrightarrow> s \<in> set destination_stops) \<and>
           (\<forall>s. distance_meters E destination s > real_of_int max_walk \<longrightarrow> s \<notin> set destination_stops)"
  by (simp add: find_routes_plan [OF assms] candidate_pairs_def walkable_def)

theorem find_routes_walking_distance_witness:
  "k_nearest_stop_coords (ALL_STOPS_TREE ex_env) (fst (0 :: real, 0 :: real)) (snd (0 :: real, 0 :: real)) 10 = Inr ex_stops \<and>
   k_nearest_stop_coords (ALL_STOPS_TREE ex_env) (fst ex_B) (snd ex_B) 10 = Inr ex_near_B \<and>
   distance_meters ex_env (0, 0) (1 / 1000, 0) = real_of_int 111 \<and>
   find_routes ex_env (0, 0) ex_B 111
     = Inr [journey_of ex_env [''S0'', ''S3''], journey_of ex_env [''S1'', ''S4'']] \<and>
   find_routes ex_env (0, 0) ex_B 110 = Inr [journey_of ex_env [''S0'', ''S3'']] \<and>
   find_routes ex_env ex_B (0, 0) 111
     = Inr [journey_of ex_env [''S4'', ''S1''], journey_of ex_env [''S3'', ''S0'']] \<and>
   find_routes ex_env ex_B (0, 0) 110 = Inr [journey_of ex_env [''S3'', ''S0'']]"
proof -
  let ?o = "(0, 0) :: coord"
  have d: "distance_meters ex_env ?o (1 / 1000, 0) = real_of_int 111"
    by code_simp
  have s: "(1 / 1000, 0) \<in> set ex_stops"
    by code_simp
  have run:
    "plan_pairs ex_env (List.product
        (filter (\<lambda>s. distance_meters ex_env ?o s \<le> real_of_int 111) ex_stops)
        (filter (\<lambda>s. distance_meters ex_env ex_B s \<le> real_of_int 111) ex_near_B))
      = Inr [journey_of ex_env [''S0'', ''S3''], journey_of ex_env [''S1'', ''S4'']]"
    "plan_pairs ex_env (List.product
        (filter (\<lambda>s. distance_meters ex_env ?o s \<le> real_of_int 110) ex_stops)
        (filter (\<lambda>s. distance_meters ex_env ex_B s \<le> real_of_int 110) ex_near_B))
      = Inr [journey_of ex_env [''S0'', ''S3'']]"
    "plan_pairs ex_env (List.product
        (filter (\<lambda>s. distance_meters ex_env ex_B s \<le> real_of_int 111) ex_near_B)
        (filter (\<lambda>s. distance_meters ex_env ?o s \<le> real_of_int 111) ex_stops))
      = Inr [journey_of ex_env [''S4'', ''S1''], journey_of ex_env [''S3'', ''S0'']]"
    "plan_pairs ex_env (List.product
        (filter (\<lambda>s. distance_meters ex_env ex_B s \<le> real_of_int 110) ex_near_B)
        (filter (\<lambda>s. distance_meters ex_env ?o s \<le> real_of_int 110) ex_stops))
      = Inr [journey_of ex_env [''S3'', ''S0'']]"
    by code_simp+
  from find_routes_walking_distance [OF ex_nearest(1) ex_nearest(3), of 111]
    find_routes_walking_distance [OF ex_nearest(1) ex_nearest(3), of 110]
    find_routes_walking_distance [OF ex_nearest(3) ex_nearest(1), of 111]
    find_routes_walking_distance [OF ex_nearest(3) ex_nearest(1), of 110]
    run d ex_nearest(1,3)
  show ?thesis by auto
qed

section \<open>Only the options of least length are kept\<close>



section \<open>Decomposition of a path\<close>

text \<open>
  Claim C5. For a path of \<open>n \<ge> 1\<close> stops whose consecutive stops are adjacent in the
  graph (and all have coordinates), \<open>parse_route\<close> yields \<open>n - 1\<close> segments; the lines
  of segment \<open>i\<close> are the lines of all the edges between stop \<open>i\<close> and stop \<open>i + 1\<close>,
  and there is at least one. A path of one stop yields no segment.
\<close>

theorem parse_route_segments:
  assumes "path \<noteq> []" "hops_adjacent (GRAPH E) path" "\<forall>s\<in>set path. STOP_COORDS E s \<noteq> None"
  shows "\<exists>segs. parse_route E path = Inr segs \<and> length segs = length path - 1 \<and>
           (\<forall>i<length segs.
              dict_get (segs ! i) ''busses''
                = Some (PyList (map Str (edge_lines (GRAPH E) (path ! i) (path ! Suc i)))) \<and>
              set (edge_lines (GRAPH E) (path ! i) (path ! Suc i))
                = {l. (path ! i, path ! Suc i, l) \<in> set (g_edges (GRAPH E)) \<or>
                      (path ! Suc i, path ! i, l) \<in> set (g_edges (GRAPH E))} \<and>
              edge_lines (GRAPH E) (path ! i) (path ! Suc i) \<noteq> [])"
proof -
  have "edge_lines (GRAPH E) (path ! i) (path ! Suc i) \<noteq> []" if "i < length path - 1" for i
  proof -
    from that have "Suc i < length path" by simp
    from hops_adjacent_nth [OF assms(2) this] show ?thesis
      by (rule edge_lines_nonempty)
  qed
  then show ?thesis
    by (simp add: parse_route_journey [OF assms] journey_of_length journey_of_nth
        hop_segment_fields(1) edge_lines_set)
qed

theorem parse_route_segments_witness:
  "[''S0'', ''S1'', ''S2''] \<noteq> [] \<and> hops_adjacent (GRAPH ex_env) [''S0'', ''S1'', ''S2''] \<and>
   STOP_COORDS ex_env ''S0'' \<noteq> None \<and> STOP_COORDS ex_env ''S1'' \<noteq> None \<and>
   STOP_COORDS ex_env ''S2'' \<noteq> None \<and>
   (\<exists>segs. parse_route ex_env [''S0'', ''S1'', ''S2''] = Inr segs \<and> length segs = 2 \<and>
      dict_get (segs ! 1) ''busses'' = Some (PyList [Str ''L1'', Str ''L2''])) \<and>
   parse_route ex_env [''S0''] = Inr []"
proof -
  have h: "[''S0'', ''S1'', ''S2''] \<noteq> []" "hops_adjacent (GRAPH ex_env) [''S0'', ''S1'', ''S2'']"
    "\<forall>s\<in>set [''S0'', ''S1'', ''S2'']. STOP_COORDS ex_env s \<noteq> None"
    by code_simp+
  have e: "edge_lines (GRAPH ex_env) ''S1'' ''S2'' = [''L1'', ''L2'']"
    by code_simp
  have s: "parse_route ex_env [''S0''] = Inr []"
    by code_simp
  from parse_route_segments [OF h] e s h show ?thesis
    by auto
qed

text \<open>
  Claim C10. For a path of at least two stops, the segments chain: the first boards at the
  first stop of the path, the last deboards at its last stop, each segment deboards where
  the next one boards, and the \<open>lat\<close> and \<open>lng\<close> of every \<open>board\<close> and \<open>deboard\<close>
  are the coordinates that \<open>STOP_COORDS\<close> holds for the stop.
\<close>

theorem parse_route_chain:
  assumes "2 \<le> length path" "hops_adjacent (GRAPH E) path" "\<forall>s\<in>set path. STOP_COORDS E s \<noteq> None"
  shows "\<exists>segs. parse_route E path = Inr segs \<and> segs \<noteq> [] \<and>
           seg_field (hd segs) ''board'' ''id'' = Some (Str (hd path)) \<and>
           seg_field (last segs) ''deboard'' ''id'' = Some (Str (last path)) \<and>
           (\<forall>i. Suc i < length segs \<longrightarrow>
              seg_field (segs ! i) ''deboard'' ''id'' = seg_field (segs ! Suc i) ''board'' ''id'') \<and>
           (\<forall>i<length segs.
              seg_field (segs ! i) ''board'' ''id'' = Some (Str (path ! i)) \<and>
              seg_field (segs ! i) ''board'' ''lat'' = map_option (Float \<circ> fst) (STOP_COORDS E (path ! i)) \<and>
              seg_field (segs ! i) ''board'' ''lng'' = map_option (Float \<circ> snd) (STOP_COORDS E (path ! i)) \<and>
              seg_field (segs ! i) ''deboard'' ''id'' = Some (Str (path ! Suc i)) \<and>
              seg_field (segs ! i) ''deboard'' ''lat'' = map_option (Float \<circ> fst) (STOP_COORDS E (path ! Suc i)) \<and>
              seg_field (segs ! i) ''deboard'' ''lng'' = map_option (Float \<circ> snd) (STOP_COORDS E (path ! Suc i)))"
proof -
  let ?segs = "journey_of E path"
  from assms(1) have ne: "path \<noteq> []" by auto
  have run: "parse_route E path = Inr ?segs"
    by (rule parse_route_journey [OF ne assms(2,3)])
  have len: "length ?segs = length path - 1"
    by (rule journey_of_length)
  with assms(1) have segs_ne: "?segs \<noteq> []" by (cases ?segs) auto
  have nth: "?segs ! i = hop_segment E (path ! i, path ! Suc i)" if "i < length ?segs" for i
    using that len journey_of_nth by simp
  have coords: "\<exists>c. STOP_COORDS E (path ! i) = Some c" if "i < length path" for i
    using that assms(3) by (metis nth_mem not_Some_eq)
  have first: "seg_field (hd ?segs) ''board'' ''id'' = Some (Str (hd path))"
  proof -
    have "hd ?segs = ?segs ! 0" using segs_ne by (simp add: hd_conv_nth)
    also have "\<dots> = hop_segment E (path ! 0, path ! Suc 0)" using segs_ne by (intro nth) simp
    finally show ?thesis using ne by (simp add: hop_segment_fields(2) hd_conv_nth)
  qed
  have final: "seg_field (last ?segs) ''deboard'' ''id'' = Some (Str (last path))"
  proof -
    have "last ?segs = ?segs ! (length path - 2)"
      using segs_ne len by (simp add: last_conv_nth numeral_2_eq_2)
    also have "\<dots> = hop_segment E (path ! (length path - 2), path ! Suc (length path - 2))"
      using assms(1) len by (intro nth) simp
    finally show ?thesis
      using assms(1) ne by (simp add: hop_segment_fields(3) last_conv_nth Suc_diff_Suc numeral_2_eq_2)
  qed
  have chain: "seg_field (?segs ! i) ''deboard'' ''id'' = seg_field (?segs ! Suc i) ''board'' ''id''"
    if "Suc i < length ?segs" for i
    using that nth [of i] nth [of "Suc i"] by (simp add: hop_segment_fields(2,3))
  have fields: "seg_field (?segs ! i) ''board'' ''id'' = Some (Str (path ! i)) \<and>
        seg_field (?segs ! i) ''board'' ''lat'' = map_option (Float \<circ> fst) (STOP_COORDS E (path ! i)) \<and>
        seg_field (?segs ! i) ''board'' ''lng'' = map_option (Float \<circ> snd) (STOP_COORDS E (path ! i)) \<and>
        seg_field (?segs ! i) ''deboard'' ''id'' = Some (Str (path ! Suc i)) \<and>
        seg_field (?segs ! i) ''deboard'' ''lat'' = map_option (Float \<circ> fst) (STOP_COORDS E (path ! Suc i)) \<and>
        seg_field (?segs ! i) ''deboard'' ''lng'' = map_option (Float \<circ> snd) (STOP_COORDS E (path ! Suc i))"
    if "i < length ?segs" for i
  proof -
    from that len have "i < length path" "Suc i < length path" by simp_all
    from coords [OF this(1)] coords [OF this(2)] obtain c d where
      cd: "STOP_COORDS E (path ! i) = Some c" "STOP_COORDS E (path ! Suc i) = Some d" by auto
    from hop_segment_fields(4) [OF cd(1), of "path ! Suc i"]
      hop_segment_fields(5) [OF cd(2), of "path ! i"] cd
    show ?thesis
      by (simp add: nth [OF that] hop_segment_fields(2,3))
  qed
  from run segs_ne first final chain fields show ?thesis by blast
qed

theorem parse_route_chain_witness:
  "2 \<le> length [''S0'', ''S1'', ''S2''] \<and> hops_adjacent (GRAPH ex_env) [''S0'', ''S1'', ''S2''] \<and>
   STOP_COORDS ex_env ''S0'' \<noteq> None \<and> STOP_COORDS ex_env ''S1'' \<noteq> None \<and>
   STOP_COORDS ex_env ''S2'' \<noteq> None \<and>
   (\<exists>segs. parse_route ex_env [''S0'', ''S1'', ''S2''] = Inr segs \<and>
      seg_field (hd segs) ''board'' ''id'' = Some (Str ''S0'') \<and>
      seg_field (last segs) ''deboard'' ''id'' = Some (Str ''S2'') \<and>
      seg_field (segs ! 0) ''deboard'' ''id'' = seg_field (segs ! 1) ''board'' ''id'' \<and>
      seg_field (segs ! 1) ''board'' ''lat'' = Some (Float (1 / 1000)))"
proof -
  have h: "2 \<le> length [''S0'', ''S1'', ''S2'']" "hops_adjacent (GRAPH ex_env) [''S0'', ''S1'', ''S2'']"
    "\<forall>s\<in>set [''S0'', ''S1'', ''S2'']. STOP_COORDS ex_env s \<noteq> None"
    by code_simp+
  have c: "STOP_COORDS ex_env ''S1'' = Some (1 / 1000, 0)"
    by code_simp
  from parse_route_chain [OF h] obtain segs where
    run: "parse_route ex_env [''S0'', ''S1'', ''S2''] = Inr segs"
    and ends: "seg_field (hd segs) ''board'' ''id'' = Some (Str (hd [''S0'', ''S1'', ''S2'']))"
      "seg_field (last segs) ''deboard'' ''id'' = Some (Str (last [''S0'', ''S1'', ''S2'']))"
    and chain: "\<forall>i. Suc i < length segs \<longrightarrow>
        seg_field (segs ! i) ''deboard'' ''id'' = seg_field (segs ! Suc i) ''board'' ''id''"
    and fields: "\<forall>i<length segs.
        seg_field (segs ! i) ''board'' ''lat''
          = map_option (Float \<circ> fst) (STOP_COORDS ex_env ([''S0'', ''S1'', ''S2''] ! i))"
    by blast
  from parse_route_journey [OF _ h(2,3)] run have len: "length segs = 2"
    by (auto simp: journey_of_length)
  from chain len have "seg_field (segs ! 0) ''deboard'' ''id'' = seg_field (segs ! 1) ''board'' ''id''"
    by simp
  moreover from fields len c have "seg_field (segs ! 1) ''board'' ''lat'' = Some (Float (1 / 1000))"
    by simp
  ultimately show ?thesis
    using h run ends by auto
qed

section \<open>The shape of a segment\<close>

text \<open>
  Claim C7, as the code has it. Every segment of every journey that \<open>find_routes\<close> returns
  is a dictionary with the keys \<open>busses\<close>, \<open>board\<close> and \<open>deboard\<close>, in this order:
  the lines of the hop are a list under \<open>busses\<close> (the key named in the docstring of
  \<open>parse_route\<close>), there is no key \<open>lines\<close>, and \<open>board\<close> and \<open>deboard\<close> are
  dictionaries with the keys \<open>id\<close>, \<open>lat\<close> and \<open>lng\<close>.
\<close>

theorem find_routes_segment_keys:
  assumes "find_routes E origin destination max_walk = Inr journeys"
    and "journey \<in> set journeys" and "seg \<in> set journey"
  shows "dict_keys seg = [''busses'', ''board'', ''deboard''] \<and>
         dict_get seg ''lines'' = None \<and>
         (\<exists>lines. dict_get seg ''busses'' = Some (PyList (map Str lines))) \<and>
         (\<exists>s c. dict_get seg ''board''
             = Some (Dict [(''id'', Str s), (''lat'', Float (fst c)), (''lng'', Float (snd c))])) \<and>
         (\<exists>s c. dict_get seg ''deboard''
             = Some (Dict [(''id'', Str s), (''lat'', Float (fst c)), (''lng'', Float (snd c))]))"
proof -
  from find_routes_Inr [OF assms(1)] obtain kept where "collect (parse_route E) kept = Inr journeys"
    by blast
  from collect_member [OF this assms(2)] obtain path where "parse_route E path = Inr journey"
    by blast
  from parse_route_segments_shape [OF this assms(3)] obtain lines b bc d dc where
    seg: "seg = segment lines b bc d dc" by blast
  have "\<exists>ls. dict_get seg ''busses'' = Some (PyList (map Str ls))"
    unfolding seg by (auto simp: segment_def)
  moreover have "\<exists>s c. dict_get seg ''board''
      = Some (Dict [(''id'', Str s), (''lat'', Float (fst c)), (''lng'', Float (snd c))])"
    unfolding seg by (simp add: segment_def stop_dict_def del: split_paired_Ex) blast
  moreover have "\<exists>s c. dict_get seg ''deboard''
      = Some (Dict [(''id'', Str s), (''lat'', Float (fst c)), (''lng'', Float (snd c))])"
    unfolding seg by (simp add: segment_def stop_dict_def del: split_paired_Ex) blast
  moreover have "dict_keys seg = [''busses'', ''board'', ''deboard'']" "dict_get seg ''lines'' = None"
    unfolding seg by (simp_all add: segment_def)
  ultimately show ?thesis by blast
qed

theorem find_routes_segment_keys_witness:
  "find_routes ex_env ex_A ex_B 100
     = Inr [[segment [''L3''] ''S0'' (0, 0) ''S3'' (3 / 1000, 0)],
            [segment [''L4''] ''S1'' (1 / 1000, 0) ''S4'' (4 / 1000, 0)]] \<and>
   dict_keys (segment [''L3''] ''S0'' (0, 0) ''S3'' (3 / 1000, 0)) = [''busses'', ''board'', ''deboard''] \<and>
   dict_get (segment [''L3''] ''S0'' (0, 0) ''S3'' (3 / 1000, 0)) ''lines'' = None"
  using find_routes_segment_keys [OF ex_two_journeys,
      of "[segment [''L3''] ''S0'' (0, 0) ''S3'' (3 / 1000, 0)]"
         "segment [''L3''] ''S0'' (0, 0) ''S3'' (3 / 1000, 0)"]
    ex_two_journeys
  by simp

text \<open>
  Claim C7 as stated fails: between \<open>ex_A\<close> and \<open>ex_B\<close> the planner returns two journeys,
  and the segment of the first has no entry under \<open>lines\<close>; its lines are under
  \<open>busses\<close>.
\<close>

theorem lines_key_counterexample:
  "find_routes ex_env ex_A ex_B 100
     = Inr [[segment [''L3''] ''S0'' (0, 0) ''S3'' (3 / 1000, 0)],
            [segment [''L4''] ''S1'' (1 / 1000, 0) ''S4'' (4 / 1000, 0)]] \<and>
   dict_get (segment [''L3''] ''S0'' (0, 0) ''S3'' (3 / 1000, 0)) ''lines'' = None \<and>
   dict_get (segment [''L3''] ''S0'' (0, 0) ''S3'' (3 / 1000, 0)) ''busses'' = Some (PyList [Str ''L3''])"
  by code_simp

section \<open>Pairs of stops that no walk connects\<close>

text \<open>
  Claim C1, as the code has it. Let every candidate pair be known (both coordinates have a
  stop identifier that is a node of the graph) and let every node have coordinates. If some
  candidate pair is not connected, the \<^verbatim>\<open>NetworkXNoPath\<close> of its path search leaves
  \<open>find_routes\<close>: no pair is set aside and no journey is returned, whether or not other
  pairs are connected. If there is at least one pair and all pairs are connected, the
  planner returns the decomposition of exactly the paths of least length among the paths
  found for the pairs.
\<close>

theorem find_routes_pairs:
  assumes nearest:
      "k_nearest_stop_coords (ALL_STOPS_TREE E) (fst origin) (snd origin) 10 = Inr origin_nearest"
      "k_nearest_stop_coords (ALL_STOPS_TREE E) (fst destination) (snd destination) 10 = Inr destination_nearest"
    and pairs: "pairs = candidate_pairs E origin destination max_walk origin_nearest destination_nearest"
    and known: "\<forall>pair\<in>set pairs. known_pair E pair"
    and coords: "\<forall>s\<in>set (node_list (GRAPH E)). STOP_COORDS E s \<noteq> None"
  shows "((\<exists>pair\<in>set pairs. \<not> pair_connected E pair) \<longrightarrow>
            find_routes E origin destination max_walk = Inl NetworkXNoPath) \<and>
         (pairs \<noteq> [] \<and> (\<forall>pair\<in>set pairs. pair_connected E pair) \<longrightarrow>
            (\<exists>paths. collect (pair_transits E) pairs = Inr paths \<and>
               find_routes E origin destination max_walk
                 = Inr (map (journey_of E)
                         (filter (\<lambda>t. length t = Min (length ` set paths)) paths))))"
proof (intro conjI impI)
  assume "\<exists>pair\<in>set pairs. \<not> pair_connected E pair"
  then obtain bad where bad: "bad \<in> set pairs" "\<not> pair_connected E bad" by blast
  with known have "pair_transits E bad = Inl NetworkXNoPath"
    by (intro pair_transits_disconnected) auto
  with bad(1) have some: "\<exists>pair\<in>set pairs. pair_transits E pair = Inl NetworkXNoPath" by blast
  have each: "pair_transits E pair = Inl NetworkXNoPath \<or> (\<exists>p. pair_transits E pair = Inr p)"
    if "pair \<in> set pairs" for pair
  proof (cases "pair_connected E pair")
    case True
    from pair_transits_connected [OF this] show ?thesis by blast
  next
    case False
    with known that show ?thesis by (simp add: pair_transits_disconnected)
  qed
  from collect_first_error [of pairs "pair_transits E", OF each some]
  have "collect (pair_transits E) pairs = Inl NetworkXNoPath" by simp
  then show "find_routes E origin destination max_walk = Inl NetworkXNoPath"
    by (simp add: find_routes_unfold [OF nearest] pairs [symmetric])
next
  assume a: "pairs \<noteq> [] \<and> (\<forall>pair\<in>set pairs. pair_connected E pair)"
  then have "\<exists>p. pair_transits E pair = Inr p \<and> is_walk (GRAPH E) p" if "pair \<in> set pairs" for pair
    using that pair_transits_connected by blast
  from collect_all_Inr [of pairs "pair_transits E" "is_walk (GRAPH E)", OF this]
  obtain paths where paths: "collect (pair_transits E) pairs = Inr paths"
    "length paths = length pairs" "\<forall>p\<in>set paths. is_walk (GRAPH E) p" by blast
  from a paths(2) have ne: "paths \<noteq> []" by auto
  let ?kept = "filter (\<lambda>t. length t = Min (length ` set paths)) paths"
  have "parse_route E p = Inr (journey_of E p)" if "p \<in> set ?kept" for p
  proof -
    from that paths(3) have w: "is_walk (GRAPH E) p" by simp
    have "\<forall>s\<in>set p. STOP_COORDS E s \<noteq> None"
      using walk_nodes [OF w] coords by (auto simp: has_node_def)
    with w show ?thesis
      by (intro parse_route_journey walk_hops_adjacent walk_nonempty)
  qed
  then have "collect (parse_route E) ?kept = Inr (map (journey_of E) ?kept)"
    by (rule collect_map)
  with paths(1) show "\<exists>paths. collect (pair_transits E) pairs = Inr paths \<and>
      find_routes E origin destination max_walk
        = Inr (map (journey_of E) (filter (\<lambda>t. length t = Min (length ` set paths)) paths))"
    by (simp add: find_routes_unfold [OF nearest] pairs [symmetric] keep_fewest_filter [OF ne])
qed

theorem find_routes_pairs_witness:
  "k_nearest_stop_coords (ALL_STOPS_TREE ex_env) (fst ex_A) (snd ex_A) 10 = Inr ex_stops \<and>
   k_nearest_stop_coords (ALL_STOPS_TREE ex_env) (fst ex_C) (snd ex_C) 10 = Inr ex_near_C \<and>
   list_all (known_pair ex_env) (candidate_pairs ex_env ex_A ex_C 100 ex_stops ex_near_C) \<and>
   list_all (\<lambda>s. STOP_COORDS ex_env s \<noteq> None) (node_list (GRAPH ex_env)) \<and>
   ((0, 0), (5 / 1000, 0)) \<in> set (candidate_pairs ex_env ex_A ex_C 100 ex_stops ex_near_C) \<and>
   \<not> pair_connected ex_env ((0, 0), (5 / 1000, 0)) \<and>
   find_routes ex_env ex_A ex_C 100 = Inl NetworkXNoPath \<and>
   k_nearest_stop_coords (ALL_STOPS_TREE ex_env) (fst ex_B) (snd ex_B) 10 = Inr ex_near_B \<and>
   candidate_pairs ex_env ex_A ex_B 100 ex_stops ex_near_B \<noteq> [] \<and>
   list_all (known_pair ex_env) (candidate_pairs ex_env ex_A ex_B 100 ex_stops ex_near_B) \<and>
   list_all (pair_connected ex_env) (candidate_pairs ex_env ex_A ex_B 100 ex_stops ex_near_B) \<and>
   find_routes ex_env ex_A ex_B 100
     = Inr [journey_of ex_env [''S0'', ''S3''], journey_of ex_env [''S1'', ''S4'']]"
proof -
  let ?A = "candidate_pairs ex_env ex_A ex_C 100 ex_stops ex_near_C"
  let ?B = "candidate_pairs ex_env ex_A ex_B 100 ex_stops ex_near_B"
  have coords: "\<forall>s\<in>set (node_list (GRAPH ex_env)). STOP_COORDS ex_env s \<noteq> None"
    by code_simp
  have knownA: "\<forall>pair\<in>set ?A. known_pair ex_env pair"
    and knownB: "\<forall>pair\<in>set ?B. known_pair ex_env pair"
    by code_simp+
  have memA: "((0, 0), (5 / 1000, 0)) \<in> set ?A" and neB: "?B \<noteq> []"
    by code_simp+
  have k: "known_pair ex_env ((0, 0), (5 / 1000, 0))"
    and t: "pair_transits ex_env ((0, 0), (5 / 1000, 0)) = Inl NetworkXNoPath"
    by code_simp+
  have bad: "\<not> pair_connected ex_env ((0, 0), (5 / 1000, 0))"
    using pair_connected_iff [OF k] t by simp
  have runB: "collect (pair_transits ex_env) ?B
      = Inr [[''S0'', ''S1'', ''S4''], [''S0'', ''S3''], [''S1'', ''S4''], [''S1'', ''S0'', ''S3'']]"
    by code_simp
  have connB: "\<forall>pair\<in>set ?B. pair_connected ex_env pair"
  proof
    fix pair assume p: "pair \<in> set ?B"
    with runB have "\<exists>p. pair_transits ex_env pair = Inr p"
      by (auto simp: collect_Inr_iff list_all2_conv_all_nth in_set_conv_nth)
    with knownB p show "pair_connected ex_env pair"
      by (simp add: pair_connected_iff)
  qed
  from find_routes_pairs [OF ex_nearest(2) ex_nearest(4) refl knownA coords] memA bad
  have resA: "find_routes ex_env ex_A ex_C 100 = Inl NetworkXNoPath"
    by blast
  from find_routes_pairs [OF ex_nearest(2) ex_nearest(3) refl knownB coords] neB connB runB
  have resB: "find_routes ex_env ex_A ex_B 100
     = Inr [journey_of ex_env [''S0'', ''S3''], journey_of ex_env [''S1'', ''S4'']]"
    by simp
  from ex_nearest(2,3,4) knownA knownB coords memA bad neB connB resA resB show ?thesis
    by (simp add: list_all_iff)
qed

text \<open>
  Claim C1 as stated fails. From \<open>ex_A\<close> to \<open>ex_C\<close> with 100 m of walking there are four
  candidate pairs; the two from \<open>S0\<close> and \<open>S1\<close> to \<open>S4\<close> are connected, the two to
  \<open>S5\<close> are not, and the planner raises \<^verbatim>\<open>NetworkXNoPath\<close> instead of returning the
  journey of a connected pair. From \<open>ex_A\<close> to \<open>ex_D\<close> with 50 m the only pair is not
  connected, and the planner raises as well instead of returning an empty list.
\<close>

theorem disconnected_pair_counterexample:
  "k_nearest_stop_coords (ALL_STOPS_TREE ex_env) (fst ex_A) (snd ex_A) 10 = Inr ex_stops \<and>
   k_nearest_stop_coords (ALL_STOPS_TREE ex_env) (fst ex_C) (snd ex_C) 10 = Inr ex_near_C \<and>
   candidate_pairs ex_env ex_A ex_C 100 ex_stops ex_near_C
     = [((0, 0), (4 / 1000, 0)), ((0, 0), (5 / 1000, 0)),
        ((1 / 1000, 0), (4 / 1000, 0)), ((1 / 1000, 0), (5 / 1000, 0))] \<and>
   map (pair_transits ex_env) (candidate_pairs ex_env ex_A ex_C 100 ex_stops ex_near_C)
     = [Inr [''S0'', ''S1'', ''S4''], Inl NetworkXNoPath, Inr [''S1'', ''S4''], Inl NetworkXNoPath] \<and>
   pair_connected ex_env ((0, 0), (4 / 1000, 0)) \<and>
   \<not> pair_connected ex_env ((0, 0), (5 / 1000, 0)) \<and>
   find_routes ex_env ex_A ex_C 100 = Inl NetworkXNoPath \<and>
   k_nearest_stop_coords (ALL_STOPS_TREE ex_env) (fst ex_D) (snd ex_D) 10 = Inr ex_near_D \<and>
   candidate_pairs ex_env ex_A ex_D 50 ex_stops ex_near_D = [((0, 0), (5 / 1000, 0))] \<and>
   find_routes ex_env ex_A ex_D 50 = Inl NetworkXNoPath"
proof -
  have k: "known_pair ex_env ((0, 0), (4 / 1000, 0))" "known_pair ex_env ((0, 0), (5 / 1000, 0))"
    by code_simp+
  have t: "pair_transits ex_env ((0, 0), (4 / 1000, 0)) = Inr [''S0'', ''S1'', ''S4'']"
    "pair_transits ex_env ((0, 0), (5 / 1000, 0)) = Inl NetworkXNoPath"
    by code_simp+
  have c: "pair_connected ex_env ((0, 0), (4 / 1000, 0))"
    "\<not> pair_connected ex_env ((0, 0), (5 / 1000, 0))"
    using pair_connected_iff [OF k(1)] pair_connected_iff [OF k(2)] t by simp_all
  have "candidate_pairs ex_env ex_A ex_C 100 ex_stops ex_near_C
     = [((0, 0), (4 / 1000, 0)), ((0, 0), (5 / 1000, 0)),
        ((1 / 1000, 0), (4 / 1000, 0)), ((1 / 1000, 0), (5 / 1000, 0))]"
    "map (pair_transits ex_env) (candidate_pairs ex_env ex_A ex_C 100 ex_stops ex_near_C)
     = [Inr [''S0'', ''S1'', ''S4''], Inl NetworkXNoPath, Inr [''S1'', ''S4''], Inl NetworkXNoPath]"
    "find_routes ex_env ex_A ex_C 100 = Inl NetworkXNoPath"
    "candidate_pairs ex_env ex_A ex_D 50 ex_stops ex_near_D = [((0, 0), (5 / 1000, 0))]"
    "find_routes ex_env ex_A ex_D 50 = Inl NetworkXNoPath"
    by code_simp+
  with c ex_nearest(2,4,5) show ?thesis by blast
qed

section \<open>Where the code leaves what is expected of it\<close>

text \<open>
  Claim C2. No stop lies within 150 m of the origin (0.1, 0): the list of origin stops is
  empty, so is the list of path results, and \<^verbatim>\<open>min\<close> of the empty list raises
  \<^verbatim>\<open>ValueError\<close>. The planner does not return an empty list of journeys.
\<close>

theorem find_routes_no_stop_in_reach:
  "k_nearest_stop_coords (ALL_STOPS_TREE ex_env) (1 / 10) 0 10
     = Inr (rev ex_stops) \<and>
   walkable ex_env (1 / 10, 0) 150 (rev ex_stops) = [] \<and>
   find_routes ex_env (1 / 10, 0) (3 / 1000, 0) 150 = Inl ValueError"
  by code_simp

text \<open>
  Claim C3. On four stops in a row the path from \<open>A\<close> to \<open>D\<close> has two changes. With
  \<open>max_changes = 1\<close> the search returns the empty path, but with \<open>max_changes = 0\<close> it
  returns the whole path, as it does without a limit: the test reads \<open>0\<close> as "no limit".
\<close>

theorem journey_transits_zero_changes:
  "journey_transits ex_chain ''A'' ''D'' None = Inr [''A'', ''B'', ''C'', ''D''] \<and>
   journey_transits ex_chain ''A'' ''D'' (Some 1) = Inr [] \<and>
   int (length [''A'', ''B'', ''C'', ''D'']) - 2 > 0 \<and>
   journey_transits ex_chain ''A'' ''D'' (Some 0) = Inr [''A'', ''B'', ''C'', ''D'']"
  by code_simp

text \<open>
  Claim C6. An index of three stops asked for ten neighbours reports the seven missing
  ones with the index 3, and \<^verbatim>\<open>tree.data[3]\<close> raises \<^verbatim>\<open>IndexError\<close>: the lookup fails
  instead of returning the three stops.
\<close>

theorem k_nearest_small_index:
  "tree_query (take 3 ex_stops) (0, 0) 10 = [0, 1, 2, 3, 3, 3, 3, 3, 3, 3] \<and>
   k_nearest_stop_coords (take 3 ex_stops) 0 0 10 = Inl IndexError"
  by code_simp

end
